theory Spec2Isabelle
  imports Main
begin

section \<open>The workflow graph executor (src/workflows/dag-runner.ts)\<close>

subsection \<open>Values, states and thrown exceptions\<close>

text \<open>
  A workflow state is an open key/value record (\<^verbatim>\<open>[key: string]: any\<close>). The executor
  inspects one field only, \<^verbatim>\<open>__breakpoint\<close>, and only for its truthiness, so field
  values are JavaScript values with the truthiness of the language; an object is an opaque
  reference. A key that is absent reads as \<^verbatim>\<open>undefined\<close>.
\<close>

datatype js_value =
    JUndefined
  | JNull
  | JBool bool
  | JNum int
  | JStr string
  | JObject nat

fun truthy :: "js_value \<Rightarrow> bool" where
  "truthy JUndefined = False"
| "truthy JNull = False"
| "truthy (JBool b) = b"
| "truthy (JNum n) = (n \<noteq> 0)"
| "truthy (JStr s) = (s \<noteq> [])"
| "truthy (JObject _) = True"

type_synonym WorkflowNodeId = string

type_synonym WorkflowState = "string \<rightharpoonup> js_value"

text \<open>
  A thrown value, as the \<^verbatim>\<open>catch\<close> block of \<^verbatim>\<open>run\<close> reads it. \<open>Nullish\<close> is
  \<^verbatim>\<open>null\<close> or \<^verbatim>\<open>undefined\<close> (what \<^verbatim>\<open>throw undefined\<close> or a bare
  \<^verbatim>\<open>Promise.reject()\<close> gives): reading a property of it throws. Any other value has
  a \<^verbatim>\<open>message\<close> property (taken to be a string) or none, and \<^verbatim>\<open>String(err)\<close>
  either gives a string or throws itself (an object without a usable conversion).
\<close>

datatype thrown = Nullish | Thrown (message: "string option") (as_string: "string option")

text \<open>\<^verbatim>\<open>new Error(m)\<close>: the message is \<open>m\<close>, and the object prints as
  \<^verbatim>\<open>Error: m\<close> (as \<^verbatim>\<open>Error\<close> when \<open>m\<close> is empty).\<close>

definition js_Error :: "string \<Rightarrow> thrown" where
  "js_Error m = Thrown (Some m) (Some (if m = [] then ''Error'' else ''Error: '' @ m))"

text \<open>
  How \<^verbatim>\<open>run\<close> can fail to return a result: the \<^verbatim>\<open>catch\<close> block itself throws
  while it builds the error text, and the promise of \<^verbatim>\<open>run\<close> rejects.
\<close>

datatype rejection = TypeError_reading_message | String_conversion_failed

text \<open>\<^verbatim>\<open>err.message || String(err)\<close>: reading \<^verbatim>\<open>message\<close> of a nullish value throws
  a \<^verbatim>\<open>TypeError\<close>; an absent or empty message is falsy and gives way to
  \<^verbatim>\<open>String(err)\<close>.\<close>

definition error_text :: "thrown \<Rightarrow> rejection + string" where
  "error_text err =
     (case err of
        Nullish \<Rightarrow> Inl TypeError_reading_message
      | Thrown msg str \<Rightarrow>
          (case msg of
             Some m \<Rightarrow>
               if m \<noteq> [] then Inr m
               else (case str of None \<Rightarrow> Inl String_conversion_failed | Some t \<Rightarrow> Inr t)
           | None \<Rightarrow>
               (case str of None \<Rightarrow> Inl String_conversion_failed | Some t \<Rightarrow> Inr t)))"

text \<open>How a template literal prints an integer: decimal digits, a minus sign first when
  it is negative.\<close>

definition digit_char :: "nat \<Rightarrow> char" where
  "digit_char d = ''0123456789'' ! d"

function decimal :: "nat \<Rightarrow> string" where
  "decimal n =
     (if n div 10 = 0 then [digit_char n]
      else decimal (n div 10) @ [digit_char (n mod 10)])"
  by pat_completeness auto
termination
  by (relation "measure id") auto

declare decimal.simps [simp del]

definition number_text :: "int \<Rightarrow> string" where
  "number_text i = (if 0 \<le> i then decimal (nat i) else CHR ''-'' # decimal (nat (- i)))"

subsection \<open>Graph, context, result (src/core/types.ts)\<close>

datatype WorkflowStatus = Idle | Running | Paused | Completed | Error | Cancelled

text \<open>
  Node functions and the two callbacks of the context are effectful: they call the
  collaborators, may abort the cancellation signal, and may throw. The type \<open>'w\<close> is the
  state of everything outside the executor (collaborators, the abort controller, the user
  interface); an effectful call takes it and returns it updated, together with either the
  value thrown (\<open>Inl\<close>) or the value returned (\<open>Inr\<close>). What happens while an
  \<^verbatim>\<open>await\<close> is pending is part of the call's effect on \<open>'w\<close>.

  The callbacks run while the runner object is live and can read its status through
  \<^verbatim>\<open>getStatus()\<close> (the progress callback of the plugin does): each call receives the
  status the runner has at that moment.
\<close>

type_synonym 'w WorkflowNodeFn =
  "WorkflowState \<Rightarrow> WorkflowStatus \<Rightarrow> 'w \<Rightarrow> (thrown + WorkflowState) \<times> 'w"

text \<open>
  The fields \<^verbatim>\<open>id\<close> and \<^verbatim>\<open>name\<close> of a node and of a graph, and \<^verbatim>\<open>from\<close> and
  \<^verbatim>\<open>to\<close> of an edge, carry a prefix here. An edge condition is a synchronous predicate
  \<^verbatim>\<open>(state) => boolean\<close>: a function of the state alone. The optional
  \<^verbatim>\<open>maxIterations\<close> is a number, taken to be an integer; the data model asks for at
  least 1, the type does not, so any integer is admitted.
\<close>

record 'w WorkflowNode =
  node_id :: WorkflowNodeId
  node_name :: string
  execute :: "'w WorkflowNodeFn"

record WorkflowEdge =
  edge_from :: WorkflowNodeId
  edge_to :: WorkflowNodeId
  condition :: "(WorkflowState \<Rightarrow> bool) option"

record 'w WorkflowGraph =
  graph_id :: string
  graph_name :: string
  entryNode :: WorkflowNodeId
  nodes :: "'w WorkflowNode list"
  edges :: "WorkflowEdge list"
  maxIterations :: "int option"

text \<open>
  The context: \<open>signal\<close> reads \<^verbatim>\<open>signal.aborted\<close> in the current outside state;
  \<open>onProgress\<close> returns nothing and may throw; \<open>onBreakpoint\<close> returns the resumed
  state and may throw. The collaborators (\<^verbatim>\<open>llm\<close>, \<^verbatim>\<open>kg\<close>, \<^verbatim>\<open>rag\<close>) are used by
  node functions only and live in \<open>'w\<close>.
\<close>

record 'w WorkflowContext =
  signal :: "('w \<Rightarrow> bool) option"
  onProgress ::
    "(WorkflowNodeId \<Rightarrow> WorkflowState \<Rightarrow> WorkflowStatus \<Rightarrow> 'w \<Rightarrow> thrown option \<times> 'w) option"
  onBreakpoint ::
    "(WorkflowNodeId \<Rightarrow> WorkflowState \<Rightarrow> WorkflowStatus \<Rightarrow> 'w
        \<Rightarrow> (thrown + WorkflowState) \<times> 'w) option"

record WorkflowRunResult =
  status :: WorkflowStatus
  finalState :: WorkflowState
  error :: "string option"
  nodesVisited :: "WorkflowNodeId list"

subsection \<open>The runner\<close>

definition DEFAULT_MAX_ITERATIONS :: int where
  "DEFAULT_MAX_ITERATIONS = 50"

record 'w DAGRunner =
  graph :: "'w WorkflowGraph"
  this_status :: WorkflowStatus

definition new_DAGRunner :: "'w WorkflowGraph \<Rightarrow> 'w DAGRunner" where
  "new_DAGRunner g = \<lparr>graph = g, this_status = Idle\<rparr>"

definition getStatus :: "'w DAGRunner \<Rightarrow> WorkflowStatus" where
  "getStatus r = this_status r"

definition findNode :: "'w DAGRunner \<Rightarrow> WorkflowNodeId \<Rightarrow> 'w WorkflowNode option" where
  "findNode r i = find (\<lambda>n. node_id n = i) (nodes (graph r))"

text \<open>\<^verbatim>\<open>edge.condition && edge.condition(state)\<close>\<close>

definition condition_holds :: "WorkflowEdge \<Rightarrow> WorkflowState \<Rightarrow> bool" where
  "condition_holds e st = (case condition e of None \<Rightarrow> False | Some p \<Rightarrow> p st)"

text \<open>\<^verbatim>\<open>!e.condition\<close>\<close>

definition unconditional :: "WorkflowEdge \<Rightarrow> bool" where
  "unconditional e = (case condition e of None \<Rightarrow> True | Some p \<Rightarrow> False)"

definition resolveNextNode ::
  "'w DAGRunner \<Rightarrow> WorkflowNodeId \<Rightarrow> WorkflowState \<Rightarrow> WorkflowNodeId option" where
  "resolveNextNode r fromId st =
     (let es = filter (\<lambda>e. edge_from e = fromId) (edges (graph r)) in
      if length es = 0 then None
      else
        case find (\<lambda>e. condition_holds e st) es of
          Some e \<Rightarrow> Some (edge_to e)
        | None \<Rightarrow>
            (case find unconditional es of
               Some u \<Rightarrow> Some (edge_to u)
             | None \<Rightarrow> None))"

text \<open>\<^verbatim>\<open>context.signal?.aborted\<close>: no signal reads as not aborted.\<close>

definition aborted :: "'w WorkflowContext \<Rightarrow> 'w \<Rightarrow> bool" where
  "aborted c w = (case signal c of None \<Rightarrow> False | Some sg \<Rightarrow> sg w)"

text \<open>\<^verbatim>\<open>(state as any).__breakpoint\<close>, read for its truthiness.\<close>

definition breakpoint_set :: "WorkflowState \<Rightarrow> bool" where
  "breakpoint_set st =
     (case st ''__breakpoint'' of None \<Rightarrow> False | Some v \<Rightarrow> truthy v)"

text \<open>\<^verbatim>\<open>delete (state as any).__breakpoint\<close>\<close>

definition delete_breakpoint :: "WorkflowState \<Rightarrow> WorkflowState" where
  "delete_breakpoint st = st(''__breakpoint'' := None)"

text \<open>
  One execution of the loop body either leaves \<^verbatim>\<open>run\<close> (by a \<^verbatim>\<open>return\<close>, or by
  a \<^verbatim>\<open>throw\<close> that the \<^verbatim>\<open>catch\<close> block turns into a result or, failing that,
  into a rejection of the promise), or goes on to the next test of the loop condition with
  new values of \<^verbatim>\<open>currentNodeId\<close>, \<^verbatim>\<open>state\<close> and \<^verbatim>\<open>nodesVisited\<close>.
\<close>

datatype 'w outcome =
    Return "rejection + WorkflowRunResult" "'w DAGRunner" 'w
  | Continue "WorkflowNodeId option" WorkflowState "WorkflowNodeId list" "'w DAGRunner" 'w

text \<open>The \<^verbatim>\<open>catch\<close> block, with the values \<^verbatim>\<open>state\<close> and \<^verbatim>\<open>nodesVisited\<close> have
  when the exception is thrown: the status is set first, then the result is built.\<close>

definition catch_block ::
  "'w DAGRunner \<Rightarrow> thrown \<Rightarrow> WorkflowState \<Rightarrow> WorkflowNodeId list \<Rightarrow> 'w \<Rightarrow> 'w outcome" where
  "catch_block r err st visited w =
     (let r1 = r\<lparr>this_status := Error\<rparr>
      in case error_text err of
           Inl rej \<Rightarrow> Return (Inl rej) r1 w
         | Inr text \<Rightarrow>
             Return (Inr \<lparr>status = Error, finalState = st, error = Some text,
                          nodesVisited = visited\<rparr>) r1 w)"

definition return_cancelled ::
  "'w DAGRunner \<Rightarrow> WorkflowState \<Rightarrow> WorkflowNodeId list \<Rightarrow> 'w \<Rightarrow> 'w outcome" where
  "return_cancelled r st visited w =
     Return (Inr \<lparr>status = Cancelled, finalState = st, error = None,
                  nodesVisited = visited\<rparr>)
            (r\<lparr>this_status := Cancelled\<rparr>) w"

text \<open>Lines 80 to 82: resolve the next node; the caller counts the iteration.\<close>

definition advance ::
  "'w DAGRunner \<Rightarrow> WorkflowNodeId \<Rightarrow> WorkflowState \<Rightarrow> WorkflowNodeId list \<Rightarrow> 'w \<Rightarrow> 'w outcome" where
  "advance r n st visited w = Continue (resolveNextNode r n st) st visited r w"

text \<open>Lines 67 to 78: the breakpoint check.\<close>

definition breakpoint_check ::
  "'w DAGRunner \<Rightarrow> 'w WorkflowContext \<Rightarrow> WorkflowNodeId \<Rightarrow> WorkflowState
     \<Rightarrow> WorkflowNodeId list \<Rightarrow> 'w \<Rightarrow> 'w outcome" where
  "breakpoint_check r c n st visited w =
     (case onBreakpoint c of
        None \<Rightarrow> advance r n st visited w
      | Some handler \<Rightarrow>
          if breakpoint_set st then
            (let r1 = r\<lparr>this_status := Paused\<rparr>;
                 st1 = delete_breakpoint st
             in case handler n st1 (getStatus r1) w of
                  (Inl err, w1) \<Rightarrow> catch_block r1 err st1 visited w1
                | (Inr st2, w1) \<Rightarrow>
                    (let r2 = r1\<lparr>this_status := Running\<rparr>
                     in if aborted c w1 then return_cancelled r2 st2 visited w1
                        else advance r2 n st2 visited w1))
          else advance r n st visited w)"

text \<open>Lines 62 to 65: the progress report, then the rest of the body.\<close>

definition report_progress ::
  "'w DAGRunner \<Rightarrow> 'w WorkflowContext \<Rightarrow> WorkflowNodeId \<Rightarrow> WorkflowState
     \<Rightarrow> WorkflowNodeId list \<Rightarrow> 'w \<Rightarrow> 'w outcome" where
  "report_progress r c n st visited w =
     (case onProgress c of
        None \<Rightarrow> breakpoint_check r c n st visited w
      | Some cb \<Rightarrow>
          (case cb n st (getStatus r) w of
             (Some err, w1) \<Rightarrow> catch_block r err st visited w1
           | (None, w1) \<Rightarrow> breakpoint_check r c n st visited w1))"

text \<open>Lines 47 to 82: the loop body at node \<open>n\<close>.\<close>

definition loop_body ::
  "'w DAGRunner \<Rightarrow> 'w WorkflowContext \<Rightarrow> WorkflowNodeId \<Rightarrow> WorkflowState
     \<Rightarrow> WorkflowNodeId list \<Rightarrow> 'w \<Rightarrow> 'w outcome" where
  "loop_body r c n st visited w =
     (if aborted c w then return_cancelled r st visited w
      else
        case findNode r n of
          None \<Rightarrow> catch_block r (js_Error (''Node not found: '' @ n)) st visited w
        | Some node \<Rightarrow>
            (let visited1 = visited @ [n]
             in case execute node st (getStatus r) w of
                  (Inl err, w1) \<Rightarrow> catch_block r err st visited1 w1
                | (Inr st1, w1) \<Rightarrow> report_progress r c n st1 visited1 w1))"

text \<open>Lines 85 to 96: after the loop.\<close>

definition after_loop ::
  "'w DAGRunner \<Rightarrow> int \<Rightarrow> WorkflowState \<Rightarrow> int \<Rightarrow> WorkflowNodeId list \<Rightarrow> 'w
     \<Rightarrow> (rejection + WorkflowRunResult) \<times> 'w DAGRunner \<times> 'w" where
  "after_loop r maxIter st iterations visited w =
     (if iterations \<ge> maxIter then
        (Inr \<lparr>status = Error, finalState = st,
              error = Some (''Max iterations ('' @ number_text maxIter @ '') exceeded''),
              nodesVisited = visited\<rparr>,
         r\<lparr>this_status := Error\<rparr>, w)
      else
        (Inr \<lparr>status = Completed, finalState = st, error = None, nodesVisited = visited\<rparr>,
         r\<lparr>this_status := Completed\<rparr>, w))"

text \<open>Lines 46 to 96: the loop and what follows it.\<close>

function run_loop ::
  "'w DAGRunner \<Rightarrow> 'w WorkflowContext \<Rightarrow> int \<Rightarrow> WorkflowNodeId option \<Rightarrow> WorkflowState
     \<Rightarrow> int \<Rightarrow> WorkflowNodeId list \<Rightarrow> 'w
     \<Rightarrow> (rejection + WorkflowRunResult) \<times> 'w DAGRunner \<times> 'w" where
  "run_loop r c maxIter currentNodeId st iterations visited w =
     (case currentNodeId of
        None \<Rightarrow> after_loop r maxIter st iterations visited w
      | Some n \<Rightarrow>
          if iterations < maxIter then
            (case loop_body r c n st visited w of
               Return res r1 w1 \<Rightarrow> (res, r1, w1)
             | Continue next st1 visited1 r1 w1 \<Rightarrow>
                 run_loop r1 c maxIter next st1 (iterations + 1) visited1 w1)
          else after_loop r maxIter st iterations visited w)"
  by pat_completeness auto
termination
  by (relation "measure (\<lambda>(r, c, maxIter, cur, st, iterations, visited, w).
        nat (maxIter - iterations))") auto

declare run_loop.simps [simp del]

text \<open>\<^verbatim>\<open>this.graph.maxIterations ?? DEFAULT_MAX_ITERATIONS\<close>\<close>

definition max_iter :: "'w DAGRunner \<Rightarrow> int" where
  "max_iter r =
     (case maxIterations (graph r) of None \<Rightarrow> DEFAULT_MAX_ITERATIONS | Some m \<Rightarrow> m)"

text \<open>\<^verbatim>\<open>run(initialState, context)\<close>, called on runner \<open>r\<close> in the outside state \<open>w\<close>:
  the result the promise resolves to (\<open>Inr\<close>) or the reason it rejects (\<open>Inl\<close>), the
  runner with its new status, and the outside state the run leaves. The
  copy \<^verbatim>\<open>{ ...initialState }\<close> has the fields of \<open>initialState\<close>.\<close>

definition run ::
  "'w DAGRunner \<Rightarrow> WorkflowState \<Rightarrow> 'w WorkflowContext \<Rightarrow> 'w
     \<Rightarrow> (rejection + WorkflowRunResult) \<times> 'w DAGRunner \<times> 'w" where
  "run r initialState c w =
     (let maxIter = max_iter r
      in run_loop (r\<lparr>this_status := Running\<rparr>) c maxIter (Some (entryNode (graph r)))
           initialState 0 [] w)"

subsection \<open>The start of each iteration\<close>

text \<open>
  The values of \<^verbatim>\<open>this\<close>, \<^verbatim>\<open>currentNodeId\<close>, \<^verbatim>\<open>state\<close>, \<^verbatim>\<open>iterations\<close>,
  \<^verbatim>\<open>nodesVisited\<close> and of the outside state at a test of the loop condition.
\<close>

type_synonym 'w loop_vars =
  "'w DAGRunner \<times> WorkflowNodeId option \<times> WorkflowState \<times> int \<times> WorkflowNodeId list \<times> 'w"

text \<open>One full iteration that comes back to the loop condition; \<open>None\<close> when the loop
  is left instead (by its condition, by a \<^verbatim>\<open>return\<close> or by a \<^verbatim>\<open>throw\<close>).\<close>

fun next_test :: "'w WorkflowContext \<Rightarrow> int \<Rightarrow> 'w loop_vars \<Rightarrow> 'w loop_vars option" where
  "next_test c maxIter (r, None, st, iterations, visited, w) = None"
| "next_test c maxIter (r, Some n, st, iterations, visited, w) =
     (if iterations < maxIter then
        (case loop_body r c n st visited w of
           Return res r1 w1 \<Rightarrow> None
         | Continue next st1 visited1 r1 w1 \<Rightarrow>
             Some (r1, next, st1, iterations + 1, visited1, w1))
      else None)"

fun loop_test :: "'w WorkflowContext \<Rightarrow> int \<Rightarrow> 'w loop_vars \<Rightarrow> nat \<Rightarrow> 'w loop_vars option" where
  "loop_test c maxIter v 0 = Some v"
| "loop_test c maxIter v (Suc k) =
     (case next_test c maxIter v of
        None \<Rightarrow> None
      | Some v1 \<Rightarrow> loop_test c maxIter v1 k)"

text \<open>The variables of \<^verbatim>\<open>run\<close> when the loop condition is tested for the
  \<open>k\<close>-th time (counting from 0), if the run gets there.\<close>

definition iteration_start ::
  "'w DAGRunner \<Rightarrow> WorkflowState \<Rightarrow> 'w WorkflowContext \<Rightarrow> 'w \<Rightarrow> nat \<Rightarrow> 'w loop_vars option" where
  "iteration_start r initialState c w k =
     loop_test c (max_iter r)
       (r\<lparr>this_status := Running\<rparr>, Some (entryNode (graph r)), initialState, 0, [], w) k"

text \<open>The node the \<open>k\<close>-th iteration is at.\<close>

definition node_at ::
  "'w DAGRunner \<Rightarrow> WorkflowState \<Rightarrow> 'w WorkflowContext \<Rightarrow> 'w \<Rightarrow> nat \<Rightarrow> WorkflowNodeId option" where
  "node_at r initialState c w k =
     (case iteration_start r initialState c w k of
        None \<Rightarrow> None
      | Some (r1, cur, st, iterations, visited, w1) \<Rightarrow> cur)"

subsection \<open>Predicates of the statements\<close>

text \<open>The progress callback, when one is configured, returns normally for node \<open>n\<close> and
  state \<open>st\<close>, taking the outside state from \<open>w\<close> to \<open>w'\<close> (with no callback nothing
  is called and the outside state stays as it is).\<close>

definition progress_returns ::
  "'w WorkflowContext \<Rightarrow> WorkflowNodeId \<Rightarrow> WorkflowState \<Rightarrow> 'w \<Rightarrow> 'w \<Rightarrow> bool" where
  "progress_returns c n st w w' =
     (case onProgress c of
        None \<Rightarrow> w' = w
      | Some cb \<Rightarrow> cb n st Running w = (None, w'))"



subsection \<open>Example graphs and contexts\<close>

text \<open>In the examples the outside state is a log of what the callbacks did; the
  cancellation signal is aborted once the log holds \<open>''abort''\<close>.\<close>

type_synonym ex_world = "string list"

definition ex_step :: "WorkflowNodeId \<Rightarrow> ex_world WorkflowNode" where
  "ex_step i =
     \<lparr>node_id = i, node_name = i,
      execute = (\<lambda>st s w. (Inr (st(i \<mapsto> JBool True)), w @ [''run '' @ i]))\<rparr>"

definition ex_edge :: "WorkflowNodeId \<Rightarrow> WorkflowNodeId \<Rightarrow> WorkflowEdge" where
  "ex_edge a b = \<lparr>edge_from = a, edge_to = b, condition = None\<rparr>"

definition ex_edge_if :: "WorkflowNodeId \<Rightarrow> WorkflowNodeId \<Rightarrow> string \<Rightarrow> WorkflowEdge" where
  "ex_edge_if a b k =
     \<lparr>edge_from = a, edge_to = b,
      condition = Some (\<lambda>st. case st k of None \<Rightarrow> False | Some v \<Rightarrow> truthy v)\<rparr>"

definition ex_branching :: "ex_world DAGRunner" where
  "ex_branching = new_DAGRunner
     \<lparr>graph_id = ''g1'', graph_name = ''branching'', entryNode = ''A'',
      nodes = [ex_step ''A'', ex_step ''B'', ex_step ''C'', ex_step ''D''],
      edges = [ex_edge_if ''A'' ''B'' ''x'', ex_edge ''A'' ''C'', ex_edge_if ''A'' ''D'' ''A'',
               ex_edge_if ''B'' ''C'' ''x'', ex_edge ''B'' ''D'',
               ex_edge_if ''C'' ''A'' ''x''],
      maxIterations = None\<rparr>"

definition ex_plain :: "ex_world WorkflowContext" where
  "ex_plain =
     \<lparr>signal = Some (\<lambda>w. ''abort'' \<in> set w), onProgress = None, onBreakpoint = None\<rparr>"

text \<open>A step that throws \<^verbatim>\<open>new Error(m)\<close>, and a step that asks for a pause.\<close>

definition ex_throwing :: "WorkflowNodeId \<Rightarrow> string \<Rightarrow> ex_world WorkflowNode" where
  "ex_throwing i m =
     \<lparr>node_id = i, node_name = i,
      execute = (\<lambda>st s w. (Inl (js_Error m), w @ [''run '' @ i]))\<rparr>"

text \<open>A step whose promise rejects with \<^verbatim>\<open>undefined\<close> (a bare \<^verbatim>\<open>Promise.reject()\<close>).\<close>

definition ex_rejecting :: "WorkflowNodeId \<Rightarrow> ex_world WorkflowNode" where
  "ex_rejecting i =
     \<lparr>node_id = i, node_name = i,
      execute = (\<lambda>st s w. (Inl Nullish, w @ [''run '' @ i]))\<rparr>"

definition ex_pausing :: "WorkflowNodeId \<Rightarrow> ex_world WorkflowNode" where
  "ex_pausing i =
     \<lparr>node_id = i, node_name = i,
      execute = (\<lambda>st s w. (Inr (st(''__breakpoint'' \<mapsto> JBool True)), w @ [''run '' @ i]))\<rparr>"

definition ex_runner ::
  "ex_world WorkflowNode list \<Rightarrow> WorkflowEdge list \<Rightarrow> int option \<Rightarrow> ex_world DAGRunner" where
  "ex_runner ns es m = new_DAGRunner
     \<lparr>graph_id = ''g'', graph_name = ''example'', entryNode = ''A'',
      nodes = ns, edges = es, maxIterations = m\<rparr>"

definition ex_single :: "ex_world DAGRunner" where
  "ex_single = ex_runner [ex_step ''A''] [] (Some 1)"

definition ex_two :: "ex_world DAGRunner" where
  "ex_two = ex_runner [ex_step ''A'', ex_step ''B''] [ex_edge ''A'' ''B''] None"

definition ex_failing :: "ex_world DAGRunner" where
  "ex_failing = ex_runner [ex_step ''A'', ex_throwing ''B'' ''boom''] [ex_edge ''A'' ''B''] None"


definition ex_paused :: "ex_world DAGRunner" where
  "ex_paused = ex_runner [ex_pausing ''A'', ex_step ''B''] [ex_edge ''A'' ''B''] None"

definition ex_cycle :: "ex_world DAGRunner" where
  "ex_cycle = ex_runner [ex_step ''A'', ex_step ''B'']
                 [ex_edge ''A'' ''B'', ex_edge ''B'' ''A''] (Some 3)"

text \<open>A progress callback that logs, and one that throws.\<close>

definition ex_progress_ok :: "ex_world WorkflowContext" where
  "ex_progress_ok = ex_plain\<lparr>onProgress := Some (\<lambda>n st s w. (None, w @ [''progress '' @ n]))\<rparr>"

definition ex_progress_throws :: "ex_world WorkflowContext" where
  "ex_progress_throws =
     ex_plain\<lparr>onProgress := Some (\<lambda>n st s w. (Some (js_Error ''panel closed''), w))\<rparr>"

text \<open>A breakpoint handler that logs the node and the status it sees and approves the
  state, and one that also aborts the signal while the run is paused.\<close>

definition ex_review ::
  "WorkflowNodeId \<Rightarrow> WorkflowState \<Rightarrow> WorkflowStatus \<Rightarrow> ex_world
     \<Rightarrow> (thrown + WorkflowState) \<times> ex_world" where
  "ex_review n st s w =
     (Inr (st(''approved'' \<mapsto> JBool True)),
      w @ [(if s = Paused then ''paused at '' else ''not paused at '') @ n])"

definition ex_reviewed :: "ex_world WorkflowContext" where
  "ex_reviewed = ex_plain\<lparr>onBreakpoint := Some ex_review\<rparr>"

definition ex_review_abort :: "ex_world WorkflowContext" where
  "ex_review_abort =
     ex_plain\<lparr>onBreakpoint := Some (\<lambda>n st s w. (fst (ex_review n st s w), w @ [''abort'']))\<rparr>"

text \<open>The reviewing handler together with the progress callback that throws.\<close>

definition ex_reviewed_progress_throws :: "ex_world WorkflowContext" where
  "ex_reviewed_progress_throws = ex_progress_throws\<lparr>onBreakpoint := Some ex_review\<rparr>"

section \<open>Edge resolution\<close>

lemma find_filter: "find P (filter Q xs) = find (\<lambda>x. Q x \<and> P x) xs"
  by (induction xs) auto

lemma find_first_index:
  assumes "i < length xs" "P (xs ! i)" "\<forall>j<i. \<not> P (xs ! j)"
  shows "find P xs = Some (xs ! i)"
  using assms by (auto simp: find_Some_iff)

lemma condition_holds_iff: "condition_holds e st \<longleftrightarrow> (\<exists>p. condition e = Some p \<and> p st)"
  by (simp add: condition_holds_def split: option.splits)

lemma unconditional_iff: "unconditional e \<longleftrightarrow> condition e = None"
  by (simp add: unconditional_def split: option.splits)

lemma resolve_no_edges:
  assumes "\<forall>e\<in>set (edges (graph r)). edge_from e \<noteq> fromId"
  shows "resolveNextNode r fromId st = None"
proof -
  have "filter (\<lambda>e. edge_from e = fromId) (edges (graph r)) = []"
    using assms by (simp add: filter_empty_conv)
  then show ?thesis by (simp add: resolveNextNode_def)
qed

lemma resolve_conditioned:
  assumes i: "i < length (edges (graph r))"
    and fr: "edge_from (edges (graph r) ! i) = fromId"
    and c: "condition (edges (graph r) ! i) = Some p" "p st"
    and first: "\<forall>j<i. edge_from (edges (graph r) ! j) = fromId \<longrightarrow>
                  (\<forall>q. condition (edges (graph r) ! j) = Some q \<longrightarrow> \<not> q st)"
  shows "resolveNextNode r fromId st = Some (edge_to (edges (graph r) ! i))"
proof -
  let ?es = "edges (graph r)"
  let ?P = "\<lambda>e. edge_from e = fromId \<and> condition_holds e st"
  have "?P (?es ! i)" using fr c by (simp add: condition_holds_iff)
  moreover have "\<forall>j<i. \<not> ?P (?es ! j)" using first by (auto simp: condition_holds_iff)
  ultimately have f: "find ?P ?es = Some (?es ! i)" using i by (rule_tac find_first_index) auto
  have "?es ! i \<in> set ?es" using i by simp
  then have ne: "filter (\<lambda>e. edge_from e = fromId) ?es \<noteq> []"
    using fr by (auto simp: filter_empty_conv)
  show ?thesis using f ne by (simp add: resolveNextNode_def find_filter Let_def)
qed

lemma resolve_default:
  assumes i: "i < length (edges (graph r))"
    and fr: "edge_from (edges (graph r) ! i) = fromId"
    and c: "condition (edges (graph r) ! i) = None"
    and none: "\<forall>e\<in>set (edges (graph r)). edge_from e = fromId \<longrightarrow>
                  (\<forall>q. condition e = Some q \<longrightarrow> \<not> q st)"
    and first: "\<forall>j<i. edge_from (edges (graph r) ! j) = fromId \<longrightarrow>
                  condition (edges (graph r) ! j) \<noteq> None"
  shows "resolveNextNode r fromId st = Some (edge_to (edges (graph r) ! i))"
proof -
  let ?es = "edges (graph r)"
  let ?P = "\<lambda>e. edge_from e = fromId \<and> unconditional e"
  have "?P (?es ! i)" using fr c by (simp add: unconditional_iff)
  moreover have "\<forall>j<i. \<not> ?P (?es ! j)" using first by (auto simp: unconditional_iff)
  ultimately have f: "find ?P ?es = Some (?es ! i)" using i by (rule_tac find_first_index) auto
  have g: "find (\<lambda>e. edge_from e = fromId \<and> condition_holds e st) ?es = None"
    using none by (auto simp: find_None_iff condition_holds_iff)
  have "?es ! i \<in> set ?es" using i by simp
  then have ne: "filter (\<lambda>e. edge_from e = fromId) ?es \<noteq> []"
    using fr by (auto simp: filter_empty_conv)
  show ?thesis using f g ne by (simp add: resolveNextNode_def find_filter Let_def)
qed

lemma resolve_all_false:
  assumes "\<forall>e\<in>set (edges (graph r)). edge_from e = fromId \<longrightarrow>
             (\<exists>q. condition e = Some q \<and> \<not> q st)"
  shows "resolveNextNode r fromId st = None"
proof -
  let ?es = "edges (graph r)"
  have g: "find (\<lambda>e. edge_from e = fromId \<and> condition_holds e st) ?es = None"
    using assms by (auto simp: find_None_iff condition_holds_iff)
  have f: "find (\<lambda>e. edge_from e = fromId \<and> unconditional e) ?es = None"
    using assms by (auto simp: find_None_iff unconditional_iff)
  show ?thesis using f g by (simp add: resolveNextNode_def find_filter Let_def)
qed

lemma resolve_two_edges:
  assumes "filter (\<lambda>e. edge_from e = fromId) (edges (graph r)) = [a, b] \<or>
           filter (\<lambda>e. edge_from e = fromId) (edges (graph r)) = [b, a]"
    and "condition a = Some q" "\<not> q st" "condition b = None"
  shows "resolveNextNode r fromId st = Some (edge_to b)"
  using assms
  by (auto simp: resolveNextNode_def condition_holds_def unconditional_def)

text \<open>
  Claim C4. For every node id \<open>fromId\<close> and state, \<open>resolveNextNode\<close> returns: null if
  no edge leaves \<open>fromId\<close>; otherwise the target of the first edge, in declaration order,
  that leaves \<open>fromId\<close> and whose condition is present and true on the state (whatever
  unconditioned edges are declared before it); otherwise the target of the first declared
  edge from \<open>fromId\<close> that has no condition; otherwise null. In particular, where the
  edges from \<open>fromId\<close> are one edge with a false condition and one edge without
  condition, in either order, the edge without condition is taken.
\<close>

theorem resolveNextNode_first_match:
  "((\<forall>e\<in>set (edges (graph r)). edge_from e \<noteq> fromId) \<longrightarrow>
      resolveNextNode r fromId st = None)
   \<and> (\<forall>i p. i < length (edges (graph r)) \<and> edge_from (edges (graph r) ! i) = fromId
          \<and> condition (edges (graph r) ! i) = Some p \<and> p st
          \<and> (\<forall>j<i. edge_from (edges (graph r) ! j) = fromId \<longrightarrow>
                (\<forall>q. condition (edges (graph r) ! j) = Some q \<longrightarrow> \<not> q st)) \<longrightarrow>
        resolveNextNode r fromId st = Some (edge_to (edges (graph r) ! i)))
   \<and> (\<forall>i. i < length (edges (graph r)) \<and> edge_from (edges (graph r) ! i) = fromId
          \<and> condition (edges (graph r) ! i) = None
          \<and> (\<forall>e\<in>set (edges (graph r)). edge_from e = fromId \<longrightarrow>
                (\<forall>q. condition e = Some q \<longrightarrow> \<not> q st))
          \<and> (\<forall>j<i. edge_from (edges (graph r) ! j) = fromId \<longrightarrow>
                condition (edges (graph r) ! j) \<noteq> None) \<longrightarrow>
        resolveNextNode r fromId st = Some (edge_to (edges (graph r) ! i)))
   \<and> ((\<forall>e\<in>set (edges (graph r)). edge_from e = fromId \<longrightarrow>
          (\<exists>q. condition e = Some q \<and> \<not> q st)) \<longrightarrow>
        resolveNextNode r fromId st = None)
   \<and> (\<forall>a b q. (filter (\<lambda>e. edge_from e = fromId) (edges (graph r)) = [a, b]
                 \<or> filter (\<lambda>e. edge_from e = fromId) (edges (graph r)) = [b, a])
          \<and> condition a = Some q \<and> \<not> q st \<and> condition b = None \<longrightarrow>
        resolveNextNode r fromId st = Some (edge_to b))"
proof (intro conjI allI impI)
  assume "\<forall>e\<in>set (edges (graph r)). edge_from e \<noteq> fromId"
  then show "resolveNextNode r fromId st = None" by (rule resolve_no_edges)
next
  fix i p
  assume "i < length (edges (graph r)) \<and> edge_from (edges (graph r) ! i) = fromId
          \<and> condition (edges (graph r) ! i) = Some p \<and> p st
          \<and> (\<forall>j<i. edge_from (edges (graph r) ! j) = fromId \<longrightarrow>
                (\<forall>q. condition (edges (graph r) ! j) = Some q \<longrightarrow> \<not> q st))"
  then show "resolveNextNode r fromId st = Some (edge_to (edges (graph r) ! i))"
    using resolve_conditioned [of i r fromId p st] by blast
next
  fix i
  assume "i < length (edges (graph r)) \<and> edge_from (edges (graph r) ! i) = fromId
          \<and> condition (edges (graph r) ! i) = None
          \<and> (\<forall>e\<in>set (edges (graph r)). edge_from e = fromId \<longrightarrow>
                (\<forall>q. condition e = Some q \<longrightarrow> \<not> q st))
          \<and> (\<forall>j<i. edge_from (edges (graph r) ! j) = fromId \<longrightarrow>
                condition (edges (graph r) ! j) \<noteq> None)"
  then show "resolveNextNode r fromId st = Some (edge_to (edges (graph r) ! i))"
    using resolve_default [of i r fromId st] by blast
next
  assume "\<forall>e\<in>set (edges (graph r)). edge_from e = fromId \<longrightarrow>
            (\<exists>q. condition e = Some q \<and> \<not> q st)"
  then show "resolveNextNode r fromId st = None" by (rule resolve_all_false)
next
  fix a b q
  assume "(filter (\<lambda>e. edge_from e = fromId) (edges (graph r)) = [a, b]
             \<or> filter (\<lambda>e. edge_from e = fromId) (edges (graph r)) = [b, a])
          \<and> condition a = Some q \<and> \<not> q st \<and> condition b = None"
  then show "resolveNextNode r fromId st = Some (edge_to b)"
    using resolve_two_edges [of fromId r a b q st] by blast
qed

theorem resolveNextNode_first_match_witness:
  "resolveNextNode ex_branching ''D'' Map.empty = None
   \<and> resolveNextNode ex_branching ''A'' (Map.empty(''A'' \<mapsto> JBool True)) = Some ''D''
   \<and> resolveNextNode ex_branching ''B'' Map.empty = Some ''D''
   \<and> resolveNextNode ex_branching ''C'' Map.empty = None"
proof -
  let ?st = "Map.empty(''A'' \<mapsto> JBool True)"
  note t1 = resolveNextNode_first_match [of ex_branching "''D''" Map.empty]
  note t2 = resolveNextNode_first_match [of ex_branching "''A''" ?st]
  note t3 = resolveNextNode_first_match [of ex_branching "''B''" Map.empty]
  note t4 = resolveNextNode_first_match [of ex_branching "''C''" Map.empty]
  have e: "edges (graph ex_branching) =
      [ex_edge_if ''A'' ''B'' ''x'', ex_edge ''A'' ''C'', ex_edge_if ''A'' ''D'' ''A'',
       ex_edge_if ''B'' ''C'' ''x'', ex_edge ''B'' ''D'', ex_edge_if ''C'' ''A'' ''x'']"
    by (simp add: ex_branching_def new_DAGRunner_def)
  have 1: "resolveNextNode ex_branching ''D'' Map.empty = None"
    using t1 [THEN conjunct1] by (simp add: e ex_edge_def ex_edge_if_def)
  have 2: "resolveNextNode ex_branching ''A'' ?st = Some ''D''"
    using t2 [THEN conjunct2, THEN conjunct1, rule_format, of 2]
    by (auto simp: e ex_edge_def ex_edge_if_def less_Suc_eq numeral_2_eq_2)
  have 3: "resolveNextNode ex_branching ''B'' Map.empty = Some ''D''"
    using t3 [THEN conjunct2, THEN conjunct2, THEN conjunct1, rule_format, of 4]
    by (auto simp: e ex_edge_def ex_edge_if_def less_Suc_eq numeral_eq_Suc)
  have 5: "resolveNextNode ex_branching ''B'' Map.empty = Some ''D''"
    using t3 [THEN conjunct2, THEN conjunct2, THEN conjunct2, THEN conjunct2, rule_format,
              of "ex_edge_if ''B'' ''C'' ''x''" "ex_edge ''B'' ''D''"]
    by (simp add: e ex_edge_def ex_edge_if_def)
  have 4: "resolveNextNode ex_branching ''C'' Map.empty = None"
    using t4 [THEN conjunct2, THEN conjunct2, THEN conjunct2, THEN conjunct1]
    by (simp add: e ex_edge_def ex_edge_if_def)
  show ?thesis using 1 2 3 4 5 by simp
qed

section \<open>The run loop\<close>

lemma run_loop_next_test:
  assumes "next_test c m (r, cur, st, it, vis, w) = Some (r1, cur1, st1, it1, vis1, w1)"
  shows "run_loop r c m cur st it vis w = run_loop r1 c m cur1 st1 it1 vis1 w1"
proof (cases cur)
  case None
  with assms show ?thesis by simp
next
  case (Some n)
  with assms show ?thesis
    by (subst run_loop.simps) (auto split: if_splits outcome.splits)
qed

lemma run_loop_loop_test:
  "loop_test c m (r, cur, st, it, vis, w) k = Some (r1, cur1, st1, it1, vis1, w1) \<Longrightarrow>
   run_loop r c m cur st it vis w = run_loop r1 c m cur1 st1 it1 vis1 w1"
proof (induction k arbitrary: r cur st it vis w)
  case 0
  then show ?case by simp
next
  case (Suc k)
  from Suc.prems obtain u where u: "next_test c m (r, cur, st, it, vis, w) = Some u"
    and l: "loop_test c m u k = Some (r1, cur1, st1, it1, vis1, w1)"
    by (auto split: option.splits)
  obtain r' cur' st' it' vis' w' where u': "u = (r', cur', st', it', vis', w')"
    by (cases u) auto
  from u u' have "run_loop r c m cur st it vis w = run_loop r' c m cur' st' it' vis' w'"
    by (simp add: run_loop_next_test)
  also from l u' have "\<dots> = run_loop r1 c m cur1 st1 it1 vis1 w1"
    by (simp add: Suc.IH)
  finally show ?case .
qed

lemma run_iteration_start:
  "iteration_start r s c w k = Some (r1, cur, st, it, vis, w1) \<Longrightarrow>
   run r s c w = run_loop r1 c (max_iter r) cur st it vis w1"
  by (simp add: iteration_start_def run_def run_loop_loop_test)

lemma loop_test_Suc_last:
  "loop_test c m v (Suc k) =
     (case loop_test c m v k of None \<Rightarrow> None | Some u \<Rightarrow> next_test c m u)"
proof (induction k arbitrary: v)
  case 0
  show ?case by (simp split: option.splits)
next
  case (Suc k)
  show ?case
  proof (cases "next_test c m v")
    case None
    then show ?thesis by simp
  next
    case (Some v1)
    have "loop_test c m v (Suc (Suc k)) = loop_test c m v1 (Suc k)"
      using Some by simp
    also have "\<dots> = (case loop_test c m v1 k of None \<Rightarrow> None | Some u \<Rightarrow> next_test c m u)"
      by (rule Suc.IH)
    also have "loop_test c m v1 k = loop_test c m v (Suc k)"
      using Some by simp
    finally show ?thesis .
  qed
qed

lemma iteration_start_Suc:
  "iteration_start r s c w (Suc k) =
     (case iteration_start r s c w k of None \<Rightarrow> None | Some u \<Rightarrow> next_test c (max_iter r) u)"
  unfolding iteration_start_def by (rule loop_test_Suc_last)

lemma iteration_start_0:
  "iteration_start r s c w 0 =
     Some (r\<lparr>this_status := Running\<rparr>, Some (entryNode (graph r)), s, 0, [], w)"
  by (simp add: iteration_start_def)

lemma catch_block_cases:
  "(\<exists>rej. catch_block r err st vis w = Return (Inl rej) (r\<lparr>this_status := Error\<rparr>) w)
   \<or> (\<exists>text. error_text err = Inr text
         \<and> catch_block r err st vis w =
             Return (Inr \<lparr>status = Error, finalState = st, error = Some text,
                          nodesVisited = vis\<rparr>) (r\<lparr>this_status := Error\<rparr>) w)"
  by (cases "error_text err") (simp_all add: catch_block_def)

lemma catch_block_Return:
  assumes "catch_block r err st vis w = Return (Inr res) r1 w1"
  shows "nodesVisited res = vis"
  using assms by (cases "error_text err") (auto simp: catch_block_def)

lemma catch_block_not_Continue:
  "catch_block r err st vis w \<noteq> Continue nx st1 vis1 r1 w1"
  by (cases "error_text err") (simp_all add: catch_block_def)

lemma catch_block_described:
  assumes "error_text err = Inr text"
  shows "catch_block r err st vis w =
           Return (Inr \<lparr>status = Error, finalState = st, error = Some text,
                        nodesVisited = vis\<rparr>) (r\<lparr>this_status := Error\<rparr>) w"
  using assms by (simp add: catch_block_def)

text \<open>What a loop body that goes on has done.\<close>

lemma breakpoint_check_Continue:
  assumes "breakpoint_check r c n st vis w = Continue nx st1 vis1 r1 w1"
  shows "vis1 = vis \<and> graph r1 = graph r \<and> (this_status r = Running \<longrightarrow> this_status r1 = Running)"
  using assms
  by (auto simp: breakpoint_check_def advance_def catch_block_not_Continue return_cancelled_def Let_def
           split: option.splits if_splits prod.splits sum.splits)

lemma report_progress_Continue:
  assumes "report_progress r c n st vis w = Continue nx st1 vis1 r1 w1"
  shows "vis1 = vis \<and> graph r1 = graph r \<and> (this_status r = Running \<longrightarrow> this_status r1 = Running)"
  using assms
  by (auto simp: report_progress_def catch_block_not_Continue
           split: option.splits prod.splits sum.splits dest: breakpoint_check_Continue)

lemma loop_body_Continue:
  assumes "loop_body r c n st vis w = Continue nx st1 vis1 r1 w1"
  shows "vis1 = vis @ [n] \<and> graph r1 = graph r
         \<and> (this_status r = Running \<longrightarrow> this_status r1 = Running)
         \<and> \<not> aborted c w \<and> findNode r n \<noteq> None"
  using assms
  by (auto simp: loop_body_def catch_block_not_Continue return_cancelled_def Let_def
           split: option.splits if_splits prod.splits sum.splits dest: report_progress_Continue)

lemma next_test_Some:
  assumes "next_test c m (r, cur, st, it, vis, w) = Some (r1, cur1, st1, it1, vis1, w1)"
  shows "\<exists>n. cur = Some n \<and> it < m \<and> it1 = it + 1 \<and> vis1 = vis @ [n] \<and> graph r1 = graph r
         \<and> (this_status r = Running \<longrightarrow> this_status r1 = Running)
         \<and> \<not> aborted c w \<and> findNode r n \<noteq> None
         \<and> loop_body r c n st vis w = Continue cur1 st1 vis1 r1 w1"
proof (cases cur)
  case None
  with assms show ?thesis by simp
next
  case (Some n)
  with assms have b: "loop_body r c n st vis w = Continue cur1 st1 vis1 r1 w1" and "it < m" "it1 = it + 1"
    by (auto split: if_splits outcome.splits)
  with loop_body_Continue [OF b] Some show ?thesis by simp
qed

lemma iteration_start_invariant:
  "iteration_start r s c w k = Some (r1, cur, st, it, vis, w1) \<Longrightarrow>
   it = int k \<and> length vis = k \<and> graph r1 = graph r \<and> this_status r1 = Running
   \<and> int k \<le> max 0 (max_iter r)
   \<and> map Some vis = map (node_at r s c w) [0..<k]"
proof (induction k arbitrary: r1 cur st it vis w1)
  case 0
  then show ?case by (auto simp: iteration_start_0)
next
  case (Suc k)
  from Suc.prems obtain u where u: "iteration_start r s c w k = Some u"
    and n: "next_test c (max_iter r) u = Some (r1, cur, st, it, vis, w1)"
    by (auto simp: iteration_start_Suc split: option.splits)
  obtain r0 cur0 st0 it0 vis0 w0 where u': "u = (r0, cur0, st0, it0, vis0, w0)"
    by (cases u) auto
  from Suc.IH [OF u [unfolded u']]
  have ih: "it0 = int k" "length vis0 = k" "graph r0 = graph r" "this_status r0 = Running"
    "map Some vis0 = map (node_at r s c w) [0..<k]" by simp_all
  from next_test_Some [OF n [unfolded u']] obtain m where
    m: "cur0 = Some m" "it0 < max_iter r" "it = it0 + 1" "vis = vis0 @ [m]" "graph r1 = graph r0"
       "this_status r0 = Running \<longrightarrow> this_status r1 = Running"
    by blast
  have "node_at r s c w k = Some m" using u u' m by (simp add: node_at_def)
  with ih m show ?case by simp
qed

lemma runner_running_eq:
  "graph r1 = graph r \<Longrightarrow> this_status r1 = Running \<Longrightarrow>
   (r1 :: 'w DAGRunner) = r\<lparr>this_status := Running\<rparr>"
  by simp

lemma findNode_Some_in_nodes:
  "findNode r n = Some node \<Longrightarrow> node \<in> set (nodes (graph r)) \<and> node_id node = n"
  by (auto simp: findNode_def find_Some_iff)

lemma breakpoint_check_Return:
  assumes "breakpoint_check r c n st vis w = Return (Inr res) r1 w1"
  shows "nodesVisited res = vis"
  using assms
  by (auto simp: breakpoint_check_def advance_def return_cancelled_def Let_def
           split: option.splits if_splits prod.splits sum.splits dest: catch_block_Return)

lemma report_progress_Return:
  assumes "report_progress r c n st vis w = Return (Inr res) r1 w1"
  shows "nodesVisited res = vis"
  using assms
  by (auto simp: report_progress_def
           split: option.splits prod.splits dest: breakpoint_check_Return catch_block_Return)

lemma loop_body_Return:
  assumes "loop_body r c n st vis w = Return (Inr res) r1 w1"
  shows "nodesVisited res = vis \<or> (nodesVisited res = vis @ [n] \<and> findNode r n \<noteq> None)"
  using assms
  by (auto simp: loop_body_def return_cancelled_def Let_def
           split: option.splits if_splits prod.splits sum.splits
           dest: report_progress_Return catch_block_Return)

lemma after_loop_nodesVisited:
  "fst (after_loop r m st it vis w) = Inr res \<Longrightarrow> nodesVisited res = vis"
  by (auto simp: after_loop_def split: if_splits)


lemma run_loop_Return:
  assumes "it < m" "loop_body r c n st vis w = Return res r1 w1"
  shows "run_loop r c m (Some n) st it vis w = (res, r1, w1)"
  using assms by (subst run_loop.simps) simp

lemma run_loop_Continue:
  assumes "it < m" "loop_body r c n st vis w = Continue nx st1 vis1 r1 w1"
  shows "run_loop r c m (Some n) st it vis w = run_loop r1 c m nx st1 (it + 1) vis1 w1"
  using assms by (subst run_loop.simps) simp

lemma run_loop_exit:
  assumes "cur = None \<or> \<not> it < m"
  shows "run_loop r c m cur st it vis w = after_loop r m st it vis w"
  using assms by (subst run_loop.simps) (auto split: option.splits)

lemma run_loop_nodesVisited_known:
  assumes "\<forall>i\<in>set vis. \<exists>node\<in>set (nodes (graph r)). node_id node = i"
    and "vis \<noteq> [] \<longrightarrow> hd vis = e"
    and "vis = [] \<longrightarrow> cur = Some e"
    and "fst (run_loop r c m cur st it vis w) = Inr res"
  shows "(\<forall>i\<in>set (nodesVisited res). \<exists>node\<in>set (nodes (graph r)). node_id node = i)
         \<and> (nodesVisited res \<noteq> [] \<longrightarrow> hd (nodesVisited res) = e)"
  using assms
proof (induction r c m cur st it vis w rule: run_loop.induct)
  case (1 r c m cur st it vis w)
  note known = "1.prems"(1) and hd_vis = "1.prems"(2) and first = "1.prems"(3)
    and returns = "1.prems"(4)
  show ?case
  proof (cases "cur = None \<or> \<not> it < m")
    case True
    then have "fst (after_loop r m st it vis w) = Inr res"
      using returns by (simp add: run_loop_exit)
    then have "nodesVisited res = vis" by (rule after_loop_nodesVisited)
    with known hd_vis show ?thesis by simp
  next
    case False
    then obtain n where n: "cur = Some n" and lt: "it < m" by auto
    have known_n: "findNode r n \<noteq> None \<Longrightarrow> \<exists>node\<in>set (nodes (graph r)). node_id node = n"
      using findNode_Some_in_nodes [of r n] by auto
    have hd_n: "hd (vis @ [n]) = e" using hd_vis first n by (cases vis) auto
    show ?thesis
    proof (cases "loop_body r c n st vis w")
      case (Return res0 r1 w1)
      have eq: "run_loop r c m cur st it vis w = (res0, r1, w1)"
        unfolding n by (rule run_loop_Return [OF lt Return])
      with returns have res0: "res0 = Inr res" by simp
      from loop_body_Return [OF Return [unfolded res0]] show ?thesis
      proof
        assume "nodesVisited res = vis"
        with known hd_vis show ?thesis by simp
      next
        assume a: "nodesVisited res = vis @ [n] \<and> findNode r n \<noteq> None"
        with known_n hd_n known show ?thesis by auto
      qed
    next
      case (Continue nx st1 vis1 r1 w1)
      have eq: "run_loop r c m cur st it vis w = run_loop r1 c m nx st1 (it + 1) vis1 w1"
        unfolding n by (rule run_loop_Continue [OF lt Continue])
      from loop_body_Continue [OF Continue]
      have v: "vis1 = vis @ [n]" and g: "graph r1 = graph r" and f: "findNode r n \<noteq> None"
        by simp_all
      have "(\<forall>i\<in>set (nodesVisited res). \<exists>node\<in>set (nodes (graph r1)). node_id node = i)
            \<and> (nodesVisited res \<noteq> [] \<longrightarrow> hd (nodesVisited res) = e)"
      proof (rule "1.IH" [OF n lt Continue])
        show "\<forall>i\<in>set vis1. \<exists>node\<in>set (nodes (graph r1)). node_id node = i"
          using known known_n f v g by auto
        show "vis1 \<noteq> [] \<longrightarrow> hd vis1 = e" using hd_n v by simp
        show "vis1 = [] \<longrightarrow> nx = Some e" using v by simp
        show "fst (run_loop r1 c m nx st1 (it + 1) vis1 w1) = Inr res"
          using returns eq by simp
      qed
      with g show ?thesis by simp
    qed
  qed
qed

lemma run_loop_length_bound:
  assumes "int (length vis) \<le> it" and "it \<le> m"
    and "fst (run_loop r c m cur st it vis w) = Inr res"
  shows "int (length (nodesVisited res)) \<le> m"
  using assms
proof (induction r c m cur st it vis w rule: run_loop.induct)
  case (1 r c m cur st it vis w)
  note len = "1.prems"(1) and le = "1.prems"(2) and returns = "1.prems"(3)
  show ?case
  proof (cases "cur = None \<or> \<not> it < m")
    case True
    then have "fst (after_loop r m st it vis w) = Inr res"
      using returns by (simp add: run_loop_exit)
    then have "nodesVisited res = vis" by (rule after_loop_nodesVisited)
    with len le show ?thesis by simp
  next
    case False
    then obtain n where n: "cur = Some n" and lt: "it < m" by auto
    show ?thesis
    proof (cases "loop_body r c n st vis w")
      case (Return res0 r1 w1)
      have eq: "run_loop r c m cur st it vis w = (res0, r1, w1)"
        unfolding n by (rule run_loop_Return [OF lt Return])
      with returns have res0: "res0 = Inr res" by simp
      from loop_body_Return [OF Return [unfolded res0]] len lt show ?thesis by auto
    next
      case (Continue nx st1 vis1 r1 w1)
      have eq: "run_loop r c m cur st it vis w = run_loop r1 c m nx st1 (it + 1) vis1 w1"
        unfolding n by (rule run_loop_Continue [OF lt Continue])
      from loop_body_Continue [OF Continue] have v: "vis1 = vis @ [n]" by simp
      show ?thesis
      proof (rule "1.IH" [OF n lt Continue])
        show "int (length vis1) \<le> it + 1" using len v by simp
        show "it + 1 \<le> m" using lt by simp
        show "fst (run_loop r1 c m nx st1 (it + 1) vis1 w1) = Inr res"
          using returns eq by simp
      qed
    qed
  qed
qed

section \<open>Evaluating the examples\<close>

lemmas ex_simps = ex_runner_def new_DAGRunner_def ex_step_def ex_edge_def ex_edge_if_def
  ex_throwing_def ex_rejecting_def ex_pausing_def ex_plain_def ex_progress_ok_def ex_progress_throws_def
  ex_review_def ex_reviewed_def ex_review_abort_def ex_reviewed_progress_throws_def

lemmas body_simps = loop_body_def report_progress_def breakpoint_check_def advance_def
  catch_block_def return_cancelled_def resolveNextNode_def findNode_def aborted_def
  getStatus_def breakpoint_set_def delete_breakpoint_def condition_holds_def unconditional_def
  error_text_def js_Error_def max_iter_def DEFAULT_MAX_ITERATIONS_def after_loop_def
  number_text_def digit_char_def Let_def

lemma decimal_digit: "n < 10 \<Longrightarrow> decimal n = [digit_char n]"
  by (subst decimal.simps) simp

lemmas run_simps = run_def run_loop.simps iteration_start_def

section \<open>Claims about whole runs\<close>

lemma error_text_message:
  "m \<noteq> [] \<Longrightarrow> error_text (Thrown (Some m) str) = Inr m"
  by (simp add: error_text_def)

lemma error_text_string:
  "error_text (Thrown None (Some t)) = Inr t"
  by (simp add: error_text_def)




text \<open>
  Claim C7. If the cancellation signal is already aborted when \<open>run\<close> is called (on a
  graph whose iteration bound is at least 1, as the data model requires), the result is
  status \<open>cancelled\<close> with \<open>nodesVisited = []\<close>, no error, and the initial state as
  \<open>finalState\<close>; nothing outside the runner has changed, so no step function and no
  callback has run.
\<close>

theorem already_aborted_cancelled:
  assumes "aborted c w" and "1 \<le> max_iter r"
  shows "run r s c w =
           (Inr \<lparr>status = Cancelled, finalState = s, error = None, nodesVisited = []\<rparr>,
            r\<lparr>this_status := Cancelled\<rparr>, w)"
proof -
  have "loop_body (r\<lparr>this_status := Running\<rparr>) c (entryNode (graph r)) s [] w =
          Return (Inr \<lparr>status = Cancelled, finalState = s, error = None, nodesVisited = []\<rparr>)
            (r\<lparr>this_status := Cancelled\<rparr>) w"
    using assms(1) by (simp add: loop_body_def return_cancelled_def)
  moreover have "0 < max_iter r" using assms(2) by simp
  ultimately have "run_loop (r\<lparr>this_status := Running\<rparr>) c (max_iter r)
      (Some (entryNode (graph r))) s 0 [] w =
        (Inr \<lparr>status = Cancelled, finalState = s, error = None, nodesVisited = []\<rparr>,
         r\<lparr>this_status := Cancelled\<rparr>, w)"
    by (rule_tac run_loop_Return)
  then show ?thesis by (simp add: run_def)
qed

theorem already_aborted_cancelled_witness:
  "aborted ex_plain [''abort''] \<and> 1 \<le> max_iter ex_cycle
   \<and> run ex_cycle [''draft'' \<mapsto> JStr ''x''] ex_plain [''abort''] =
       (Inr \<lparr>status = Cancelled, finalState = [''draft'' \<mapsto> JStr ''x''], error = None,
         nodesVisited = []\<rparr>,
        ex_cycle\<lparr>this_status := Cancelled\<rparr>, [''abort''])"
proof -
  have a: "aborted ex_plain [''abort'']"
    by (simp add: ex_simps body_simps)
  have b: "1 \<le> max_iter ex_cycle"
    by (simp add: ex_cycle_def ex_simps body_simps)
  from already_aborted_cancelled [OF a b] a b show ?thesis by simp
qed

text \<open>
  Claim C9. In every result that \<open>run\<close> returns, every id in \<open>nodesVisited\<close> names a
  node of \<open>graph.nodes\<close> (an id that fails lookup is never appended), and a non-empty
  \<open>nodesVisited\<close> starts with \<open>graph.entryNode\<close>. (When the promise of \<open>run\<close> rejects
  there is no result and no trace.)
\<close>

theorem nodesVisited_known_nodes:
  assumes "fst (run r s c w) = Inr res"
  shows "(\<forall>i\<in>set (nodesVisited res). \<exists>node\<in>set (nodes (graph r)). node_id node = i)
         \<and> (nodesVisited res \<noteq> [] \<longrightarrow> hd (nodesVisited res) = entryNode (graph r))"
proof -
  let ?r = "r\<lparr>this_status := Running\<rparr>"
  let ?e = "entryNode (graph r)"
  have run: "run r s c w = run_loop ?r c (max_iter r) (Some ?e) s 0 [] w"
    by (simp add: run_def)
  have "(\<forall>i\<in>set (nodesVisited res). \<exists>node\<in>set (nodes (graph ?r)). node_id node = i)
         \<and> (nodesVisited res \<noteq> [] \<longrightarrow> hd (nodesVisited res) = ?e)"
  proof (rule run_loop_nodesVisited_known)
    show "fst (run_loop ?r c (max_iter r) (Some ?e) s 0 [] w) = Inr res"
      using assms unfolding run .
  qed simp_all
  then show ?thesis by simp
qed

theorem nodesVisited_known_nodes_witness:
  "fst (run ex_failing Map.empty ex_plain []) =
     Inr \<lparr>status = Error, finalState = [''A'' \<mapsto> JBool True], error = Some ''boom'',
           nodesVisited = [''A'', ''B'']\<rparr>
   \<and> (\<exists>node\<in>set (nodes (graph ex_failing)). node_id node = ''A'')
   \<and> (\<exists>node\<in>set (nodes (graph ex_failing)). node_id node = ''B'')
   \<and> hd [''A'', ''B''] = entryNode (graph ex_failing)"
proof -
  have v: "fst (run ex_failing Map.empty ex_plain []) =
     Inr \<lparr>status = Error, finalState = [''A'' \<mapsto> JBool True], error = Some ''boom'',
           nodesVisited = [''A'', ''B'']\<rparr>"
    by (simp add: run_def run_loop.simps ex_failing_def ex_simps body_simps)
  from nodesVisited_known_nodes [OF v] v
  show ?thesis by (simp add: ex_failing_def ex_simps)
qed

text \<open>
  Claim C10. With the effective bound \<open>maxIterations\<close> (the graph's value when supplied,
  else 50), \<open>run\<close> terminates (it is a total function of the graph, the callbacks and
  the outside state, all calls of which return), the loop condition is tested at most
  \<open>maxIterations + 1\<close> times, so the body runs at most \<open>maxIterations\<close> times, and
  the \<open>nodesVisited\<close> of the result returned has length at most \<open>maxIterations\<close>. The
  bound is not negative, as the data model requires.
\<close>

theorem run_iterations_bounded:
  assumes "0 \<le> max_iter r"
  shows "(\<forall>res. fst (run r s c w) = Inr res \<longrightarrow>
            int (length (nodesVisited res)) \<le> max_iter r)
         \<and> (\<forall>k. iteration_start r s c w k \<noteq> None \<longrightarrow> int k \<le> max_iter r)
         \<and> (maxIterations (graph r) = None \<longrightarrow> max_iter r = 50)
         \<and> (\<forall>m. maxIterations (graph r) = Some m \<longrightarrow> max_iter r = m)"
proof -
  have a: "\<forall>res. fst (run r s c w) = Inr res \<longrightarrow>
      int (length (nodesVisited res)) \<le> max_iter r"
  proof (intro allI impI)
    fix res
    assume "fst (run r s c w) = Inr res"
    then have "fst (run_loop (r\<lparr>this_status := Running\<rparr>) c (max_iter r)
              (Some (entryNode (graph r))) s 0 [] w) = Inr res"
      by (simp add: run_def)
    with assms show "int (length (nodesVisited res)) \<le> max_iter r"
      by (intro run_loop_length_bound [where it = 0 and vis = "[]"]) simp_all
  qed
  have b: "\<forall>k. iteration_start r s c w k \<noteq> None \<longrightarrow> int k \<le> max_iter r"
  proof (intro allI impI)
    fix k assume "iteration_start r s c w k \<noteq> None"
    then obtain r1 cur st it vis w1
      where "iteration_start r s c w k = Some (r1, cur, st, it, vis, w1)"
      by (cases "iteration_start r s c w k") auto
    from iteration_start_invariant [OF this] assms show "int k \<le> max_iter r" by simp
  qed
  have d: "maxIterations (graph r) = None \<longrightarrow> max_iter r = 50"
    by (simp add: max_iter_def DEFAULT_MAX_ITERATIONS_def)
  have e: "\<forall>m. maxIterations (graph r) = Some m \<longrightarrow> max_iter r = m"
    by (simp add: max_iter_def)
  from a b d e show ?thesis by blast
qed

theorem run_iterations_bounded_witness:
  "0 \<le> max_iter ex_cycle \<and> max_iter ex_cycle = 3
   \<and> fst (run ex_cycle Map.empty ex_plain []) =
       Inr \<lparr>status = Error, finalState = [''B'' \<mapsto> JBool True, ''A'' \<mapsto> JBool True],
             error = Some ''Max iterations (3) exceeded'', nodesVisited = [''A'', ''B'', ''A'']\<rparr>
   \<and> int (length [''A'', ''B'', ''A'']) \<le> max_iter ex_cycle
   \<and> iteration_start ex_cycle Map.empty ex_plain [] 4 = None"
proof -
  have m: "max_iter ex_cycle = 3"
    by (simp add: ex_cycle_def ex_simps body_simps)
  then have h: "0 \<le> max_iter ex_cycle" by simp
  have v: "fst (run ex_cycle Map.empty ex_plain []) =
       Inr \<lparr>status = Error, finalState = [''B'' \<mapsto> JBool True, ''A'' \<mapsto> JBool True],
             error = Some ''Max iterations (3) exceeded'', nodesVisited = [''A'', ''B'', ''A'']\<rparr>"
    by (simp add: run_def run_loop.simps ex_cycle_def ex_simps body_simps decimal_digit)
  note t = run_iterations_bounded [OF h, of Map.empty ex_plain "[]"]
  from t [THEN conjunct1, rule_format, OF v]
  have len: "int (length [''A'', ''B'', ''A'']) \<le> max_iter ex_cycle" by simp
  from t
  have "iteration_start ex_cycle Map.empty ex_plain [] 4 \<noteq> None \<longrightarrow> int 4 \<le> max_iter ex_cycle"
    by blast
  moreover have "\<not> int 4 \<le> max_iter ex_cycle" using m by simp
  ultimately have "iteration_start ex_cycle Map.empty ex_plain [] 4 = None"
    by blast
  with m h v len show ?thesis by simp
qed

section \<open>The phases of one iteration\<close>

text \<open>An iteration whose step returns.\<close>

lemma iteration_step_returns:
  assumes start: "iteration_start r s c w k = Some (r1, Some n, st, it, vis, w1)"
    and bound: "int k < max_iter r"
    and live: "\<not> aborted c w1"
    and node: "findNode r n = Some node"
    and step: "execute node st Running w1 = (Inr st1, w2)"
  shows "r1 = r\<lparr>this_status := Running\<rparr>"
    and "it = int k"
    and "loop_body r1 c n st vis w1 = report_progress r1 c n st1 (vis @ [n]) w2"
proof -
  from iteration_start_invariant [OF start]
  have inv: "it = int k" "graph r1 = graph r" "this_status r1 = Running" by simp_all
  show "r1 = r\<lparr>this_status := Running\<rparr>" using inv(2,3) by (rule runner_running_eq)
  show "it = int k" by (rule inv(1))
  have f: "findNode r1 n = Some node" using node inv(2) by (simp add: findNode_def)
  have x: "execute node st (getStatus r1) w1 = (Inr st1, w2)"
    using step inv(3) by (simp add: getStatus_def)
  show "loop_body r1 c n st vis w1 = report_progress r1 c n st1 (vis @ [n]) w2"
    using live f x by (simp add: loop_body_def Let_def)
qed

lemma report_progress_returns:
  assumes "this_status r1 = Running" and "progress_returns c n st1 w2 w3"
  shows "report_progress r1 c n st1 vis w2 = breakpoint_check r1 c n st1 vis w3"
  using assms
  by (auto simp: report_progress_def progress_returns_def getStatus_def split: option.splits)

lemma report_progress_throws:
  assumes "this_status r1 = Running" and "onProgress c = Some cb"
    and "cb n st1 Running w2 = (Some err, w3)"
  shows "report_progress r1 c n st1 vis w2 = catch_block r1 err st1 vis w3"
  using assms by (simp add: report_progress_def getStatus_def)

lemma breakpoint_check_no_handler:
  assumes "onBreakpoint c = None"
  shows "breakpoint_check r1 c n st1 vis w = Continue (resolveNextNode r1 n st1) st1 vis r1 w"
  using assms by (simp add: breakpoint_check_def advance_def)

lemma breakpoint_check_handler:
  assumes "onBreakpoint c = Some h" and "breakpoint_set st1"
    and "h n (delete_breakpoint st1) Paused w = (Inr st2, w')"
  shows "breakpoint_check r1 c n st1 vis w =
           (if aborted c w' then
              Return (Inr \<lparr>status = Cancelled, finalState = st2, error = None, nodesVisited = vis\<rparr>)
                (r1\<lparr>this_status := Cancelled\<rparr>) w'
            else Continue (resolveNextNode r1 n st2) st2 vis (r1\<lparr>this_status := Running\<rparr>) w')"
  using assms
  by (simp add: breakpoint_check_def advance_def return_cancelled_def getStatus_def
                resolveNextNode_def Let_def)

lemma iteration_start_next:
  assumes start: "iteration_start r s c w k = Some (r1, Some n, st, it, vis, w1)"
    and lt: "it < max_iter r"
    and body: "loop_body r1 c n st vis w1 = Continue nx st1 vis1 r2 w2"
  shows "iteration_start r s c w (Suc k) = Some (r2, nx, st1, it + 1, vis1, w2)"
  using assms by (simp add: iteration_start_Suc)

lemma resolveNextNode_status:
  "resolveNextNode (r\<lparr>this_status := x\<rparr>) n st = resolveNextNode r n st"
  by (simp add: resolveNextNode_def)

section \<open>The result after the loop\<close>

text \<open>When the loop condition fails at its \<open>k\<close>-th test, the run completes if fewer than
  \<open>maxIter\<close> iterations were made and reports the bound otherwise, whether or not a
  node is left to run.\<close>

lemma run_result_after_loop:
  assumes start: "iteration_start r s c w k = Some (r1, cur, st, it, vis, w1)"
    and exit: "cur = None \<or> \<not> int k < max_iter r"
  shows "run r s c w =
           (if max_iter r \<le> int k then
              (Inr \<lparr>status = Error, finalState = st,
                error = Some (''Max iterations ('' @ number_text (max_iter r) @ '') exceeded''),
                nodesVisited = vis\<rparr>, r\<lparr>this_status := Error\<rparr>, w1)
            else
              (Inr \<lparr>status = Completed, finalState = st, error = None, nodesVisited = vis\<rparr>,
               r\<lparr>this_status := Completed\<rparr>, w1))"
proof -
  from iteration_start_invariant [OF start]
  have inv: "it = int k" "graph r1 = graph r" "this_status r1 = Running" by simp_all
  have r1: "r1 = r\<lparr>this_status := Running\<rparr>"
    using inv(2,3) by (rule runner_running_eq)
  have "run r s c w = run_loop r1 c (max_iter r) cur st it vis w1"
    by (rule run_iteration_start [OF start])
  also have "\<dots> = after_loop r1 (max_iter r) st it vis w1"
    using exit inv(1) by (intro run_loop_exit) simp
  finally show ?thesis
    using inv(1) r1 by (simp add: after_loop_def)
qed

text \<open>
  Claim C1 says that a run whose loop exits with \<open>current = null\<close> completes, also when
  the sink node is reached on exactly the \<open>maxIterations\<close>-th iteration. On the single
  node graph with \<open>maxIterations = 1\<close> the loop exits with \<open>current = null\<close> after one
  iteration, and \<open>run\<close> reports that the iteration bound was exceeded: the test after
  the loop is \<^verbatim>\<open>iterations >= maxIter\<close>, whatever \<open>currentNodeId\<close> is.
\<close>

theorem sink_reached_on_last_iteration:
  "max_iter ex_single = 1
   \<and> iteration_start ex_single Map.empty ex_plain [] 1 =
       Some (ex_single\<lparr>this_status := Running\<rparr>, None, [''A'' \<mapsto> JBool True], 1, [''A''],
             [''run A''])
   \<and> run ex_single Map.empty ex_plain [] =
       (Inr \<lparr>status = Error, finalState = [''A'' \<mapsto> JBool True],
         error = Some ''Max iterations (1) exceeded'', nodesVisited = [''A'']\<rparr>,
        ex_single\<lparr>this_status := Error\<rparr>, [''run A''])"
  by (simp add: run_simps ex_single_def ex_simps body_simps decimal_digit)

section \<open>The breakpoint protocol and the progress callback\<close>

text \<open>
  Claim C2 as stated fails: with no handler configured the marker is not cleared. The step
  of node \<open>A\<close> sets the marker; node \<open>B\<close> is then entered with the marker still in
  the state, and the run completes with the marker in \<open>finalState\<close>.
\<close>

theorem marker_survives_without_handler:
  "onBreakpoint ex_plain = None
   \<and> iteration_start ex_paused Map.empty ex_plain [] 1 =
       Some (ex_paused\<lparr>this_status := Running\<rparr>, Some ''B'', [''__breakpoint'' \<mapsto> JBool True],
             1, [''A''], [''run A''])
   \<and> run ex_paused Map.empty ex_plain [] =
       (Inr \<lparr>status = Completed,
             finalState = [''__breakpoint'' \<mapsto> JBool True, ''B'' \<mapsto> JBool True],
             error = None, nodesVisited = [''A'', ''B'']\<rparr>,
        ex_paused\<lparr>this_status := Completed\<rparr>, [''run A'', ''run B''])"
  by (simp add: run_simps ex_paused_def ex_simps body_simps)

text \<open>
  Claim C2, as amended. For every run in which \<open>onBreakpoint\<close> is not configured, a
  node's step returns a state whose pause marker is set and truthy, and the progress
  callback, when one is configured, returns normally for that node, the executor leaves
  the state as the step returned it,
  marker included, and the run continues normally: edge resolution is evaluated on that
  state, the next iteration starts with it, and it is the \<open>finalState\<close> when the run
  completes at this node.
\<close>

theorem no_handler_marker_kept:
  assumes start: "iteration_start r s c w k = Some (r1, Some n, st, it, vis, w1)"
    and bound: "int k < max_iter r"
    and live: "\<not> aborted c w1"
    and node: "findNode r n = Some node"
    and step: "execute node st Running w1 = (Inr st1, w2)"
    and marker: "breakpoint_set st1"
    and no_handler: "onBreakpoint c = None"
    and progress: "progress_returns c n st1 w2 w3"
  shows "iteration_start r s c w (Suc k) =
           Some (r\<lparr>this_status := Running\<rparr>, resolveNextNode r n st1, st1, int k + 1,
                 vis @ [n], w3)
         \<and> (\<exists>v. st1 ''__breakpoint'' = Some v \<and> truthy v)
         \<and> (resolveNextNode r n st1 = None \<and> int k + 1 < max_iter r \<longrightarrow>
              run r s c w =
                (Inr \<lparr>status = Completed, finalState = st1, error = None,
                  nodesVisited = vis @ [n]\<rparr>, r\<lparr>this_status := Completed\<rparr>, w3))"
proof -
  note it = iteration_step_returns [OF start bound live node step]
  have run1: "this_status r1 = Running" using it(1) by simp
  have body: "loop_body r1 c n st vis w1 =
      Continue (resolveNextNode r1 n st1) st1 (vis @ [n]) r1 w3"
    using it(3) report_progress_returns [OF run1 progress]
      breakpoint_check_no_handler [OF no_handler] by simp
  have lt: "it < max_iter r" using bound it(2) by simp
  have nxt: "iteration_start r s c w (Suc k) =
      Some (r\<lparr>this_status := Running\<rparr>, resolveNextNode r n st1, st1, int k + 1,
            vis @ [n], w3)"
    using iteration_start_next [OF start lt body] it(1,2)
    by (simp add: resolveNextNode_status)
  have mk: "\<exists>v. st1 ''__breakpoint'' = Some v \<and> truthy v"
    using marker by (simp add: breakpoint_set_def split: option.splits)
  have fin: "resolveNextNode r n st1 = None \<and> int k + 1 < max_iter r \<longrightarrow>
        run r s c w =
          (Inr \<lparr>status = Completed, finalState = st1, error = None,
            nodesVisited = vis @ [n]\<rparr>, r\<lparr>this_status := Completed\<rparr>, w3)"
  proof
    assume a: "resolveNextNode r n st1 = None \<and> int k + 1 < max_iter r"
    have "run r s c w =
        run_loop (r\<lparr>this_status := Running\<rparr>) c (max_iter r) None st1 (int k + 1) (vis @ [n]) w3"
      using run_iteration_start [OF nxt] a by simp
    also have "\<dots> = after_loop (r\<lparr>this_status := Running\<rparr>) (max_iter r) st1 (int k + 1)
                        (vis @ [n]) w3"
      by (rule run_loop_exit) simp
    finally show "run r s c w =
          (Inr \<lparr>status = Completed, finalState = st1, error = None,
            nodesVisited = vis @ [n]\<rparr>, r\<lparr>this_status := Completed\<rparr>, w3)"
      using a by (simp add: after_loop_def)
  qed
  from nxt mk fin show ?thesis by blast
qed

theorem no_handler_marker_kept_witness:
  "iteration_start ex_paused Map.empty ex_plain [] (Suc 0) =
     Some (ex_paused\<lparr>this_status := Running\<rparr>, Some ''B'', [''__breakpoint'' \<mapsto> JBool True],
           1, [''A''], [''run A''])
   \<and> breakpoint_set [''__breakpoint'' \<mapsto> JBool True]"
proof -
  have start: "iteration_start ex_paused Map.empty ex_plain [] 0 =
      Some (ex_paused\<lparr>this_status := Running\<rparr>, Some ''A'', Map.empty, 0, [], [])"
    by (simp add: iteration_start_def ex_paused_def ex_simps)
  have bound: "int 0 < max_iter ex_paused"
    by (simp add: ex_paused_def ex_simps body_simps)
  have live: "\<not> aborted ex_plain []"
    by (simp add: ex_simps body_simps)
  have node: "findNode ex_paused ''A'' = Some (ex_pausing ''A'')"
    by (simp add: ex_paused_def ex_simps body_simps)
  have step: "execute (ex_pausing ''A'') Map.empty Running [] =
      (Inr [''__breakpoint'' \<mapsto> JBool True], [''run A''])"
    by (simp add: ex_simps)
  have marker: "breakpoint_set [''__breakpoint'' \<mapsto> JBool True]"
    by (simp add: breakpoint_set_def)
  have no_handler: "onBreakpoint ex_plain = None"
    by (simp add: ex_simps)
  have progress: "progress_returns ex_plain ''A'' [''__breakpoint'' \<mapsto> JBool True] [''run A''] [''run A'']"
    by (simp add: progress_returns_def ex_simps)
  have next_node: "resolveNextNode ex_paused ''A'' [''__breakpoint'' \<mapsto> JBool True] = Some ''B''"
    by (simp add: ex_paused_def ex_simps body_simps)
  from no_handler_marker_kept [OF start bound live node step marker no_handler progress]
    next_node marker
  show ?thesis by simp
qed

text \<open>
  Claim C3 as stated fails: on the graph \<open>A \<rightarrow> B\<close> a progress callback that returns
  lets the run complete after both nodes, while one that throws ends the run after \<open>A\<close>
  with status \<open>error\<close> and without the effect of \<open>B\<close> on the state.
\<close>

theorem progress_throw_changes_result:
  "fst (run ex_two Map.empty ex_progress_ok []) =
     Inr \<lparr>status = Completed, finalState = [''A'' \<mapsto> JBool True, ''B'' \<mapsto> JBool True],
           error = None, nodesVisited = [''A'', ''B'']\<rparr>
   \<and> fst (run ex_two Map.empty ex_progress_throws []) =
       Inr \<lparr>status = Error, finalState = [''A'' \<mapsto> JBool True],
             error = Some ''panel closed'', nodesVisited = [''A'']\<rparr>"
  by (simp add: run_simps ex_two_def ex_simps body_simps)

text \<open>
  Claim C3, as amended. For every run with a configured \<open>onProgress\<close> callback: when the
  callback throws after a node's step a value that the \<^verbatim>\<open>catch\<close> block can describe
  (\<^verbatim>\<open>err.message || String(err)\<close> evaluates to a text, so the value is not
  \<^verbatim>\<open>null\<close> or \<^verbatim>\<open>undefined\<close>), the exception is caught like any other and the run
  stops there with status \<open>error\<close>, that text (the callback's message) in the error
  field, \<open>finalState\<close> the state that node's step returned and \<open>nodesVisited\<close> ending
  with that node; when the callback returns normally, the loop body goes on to the
  breakpoint check with the state and the trace as they were.
\<close>

theorem progress_throw_stops_run:
  assumes start: "iteration_start r s c w k = Some (r1, Some n, st, it, vis, w1)"
    and bound: "int k < max_iter r"
    and live: "\<not> aborted c w1"
    and node: "findNode r n = Some node"
    and step: "execute node st Running w1 = (Inr st1, w2)"
    and callback: "onProgress c = Some cb"
  shows "(\<forall>err w3 text. cb n st1 Running w2 = (Some err, w3) \<and> error_text err = Inr text \<longrightarrow>
            run r s c w =
              (Inr \<lparr>status = Error, finalState = st1, error = Some text,
                    nodesVisited = vis @ [n]\<rparr>, r\<lparr>this_status := Error\<rparr>, w3))
         \<and> (\<forall>w3. cb n st1 Running w2 = (None, w3) \<longrightarrow>
              loop_body r1 c n st vis w1 = breakpoint_check r1 c n st1 (vis @ [n]) w3)"
proof (intro conjI allI impI)
  note it = iteration_step_returns [OF start bound live node step]
  have run1: "this_status r1 = Running" using it(1) by simp
  have lt: "it < max_iter r" using bound it(2) by simp
  {
    fix err w3 msg
    assume a: "cb n st1 Running w2 = (Some err, w3) \<and> error_text err = Inr msg"
    then have t: "cb n st1 Running w2 = (Some err, w3)" and d: "error_text err = Inr msg"
      by simp_all
    have "loop_body r1 c n st vis w1 = catch_block r1 err st1 (vis @ [n]) w3"
      using it(3) report_progress_throws [OF run1 callback t] by simp
    then have body: "loop_body r1 c n st vis w1 =
        Return (Inr \<lparr>status = Error, finalState = st1, error = Some msg,
                     nodesVisited = vis @ [n]\<rparr>) (r1\<lparr>this_status := Error\<rparr>) w3"
      by (simp add: catch_block_described [OF d])
    have "run r s c w = run_loop r1 c (max_iter r) (Some n) st it vis w1"
      by (rule run_iteration_start [OF start])
    also have "\<dots> = (Inr \<lparr>status = Error, finalState = st1, error = Some msg,
                nodesVisited = vis @ [n]\<rparr>, r1\<lparr>this_status := Error\<rparr>, w3)"
      by (rule run_loop_Return [OF lt body])
    finally show "run r s c w =
              (Inr \<lparr>status = Error, finalState = st1, error = Some msg,
                    nodesVisited = vis @ [n]\<rparr>, r\<lparr>this_status := Error\<rparr>, w3)"
      using it(1) by simp
  }
  {
    fix w3
    assume t: "cb n st1 Running w2 = (None, w3)"
    have "progress_returns c n st1 w2 w3" using callback t by (simp add: progress_returns_def)
    from report_progress_returns [OF run1 this] it(3)
    show "loop_body r1 c n st vis w1 = breakpoint_check r1 c n st1 (vis @ [n]) w3" by simp
  }
qed

theorem progress_throw_stops_run_witness:
  "run ex_two Map.empty ex_progress_throws [] =
     (Inr \<lparr>status = Error, finalState = [''A'' \<mapsto> JBool True], error = Some ''panel closed'',
       nodesVisited = [''A'']\<rparr>, ex_two\<lparr>this_status := Error\<rparr>, [''run A''])"
proof -
  let ?cb = "\<lambda>(n::WorkflowNodeId) (st::WorkflowState) (s::WorkflowStatus) (w::ex_world).
               (Some (js_Error ''panel closed''), w)"
  have start: "iteration_start ex_two Map.empty ex_progress_throws [] 0 =
      Some (ex_two\<lparr>this_status := Running\<rparr>, Some ''A'', Map.empty, 0, [], [])"
    by (simp add: iteration_start_def ex_two_def ex_simps)
  have bound: "int 0 < max_iter ex_two"
    by (simp add: ex_two_def ex_simps body_simps)
  have live: "\<not> aborted ex_progress_throws []"
    by (simp add: ex_simps body_simps)
  have node: "findNode ex_two ''A'' = Some (ex_step ''A'')"
    by (simp add: ex_two_def ex_simps body_simps)
  have step: "execute (ex_step ''A'') Map.empty Running [] =
      (Inr [''A'' \<mapsto> JBool True], [''run A''])"
    by (simp add: ex_simps)
  have callback: "onProgress ex_progress_throws = Some ?cb"
    by (simp add: ex_simps)
  have throws: "?cb ''A'' [''A'' \<mapsto> JBool True] Running [''run A''] =
      (Some (js_Error ''panel closed''), [''run A''])"
    by simp
  have described: "error_text (js_Error ''panel closed'') = Inr ''panel closed''"
    by (simp add: error_text_def js_Error_def)
  from progress_throw_stops_run [OF start bound live node step callback, THEN conjunct1,
    rule_format, OF conjI [OF throws described]]
  show ?thesis by simp
qed

text \<open>
  Claim C5 as stated fails: the progress callback runs between the step and the breakpoint
  check, inside the same \<^verbatim>\<open>try\<close>. Here a handler is configured and the step of \<open>A\<close>
  returns a marked state, but the progress callback throws: the run ends with status
  \<open>error\<close>, the marker still in \<open>finalState\<close>, and the handler has not been called
  (it would have added an entry to the log).
\<close>

theorem handler_skipped_when_progress_throws:
  "onBreakpoint ex_reviewed_progress_throws = Some ex_review
   \<and> execute (ex_pausing ''A'') Map.empty Running [] =
       (Inr [''__breakpoint'' \<mapsto> JBool True], [''run A''])
   \<and> run ex_paused Map.empty ex_reviewed_progress_throws [] =
       (Inr \<lparr>status = Error, finalState = [''__breakpoint'' \<mapsto> JBool True],
             error = Some ''panel closed'', nodesVisited = [''A'']\<rparr>,
        ex_paused\<lparr>this_status := Error\<rparr>, [''run A''])"
  by (simp add: run_simps ex_paused_def ex_simps body_simps)

text \<open>
  Claim C5, as amended. For every run with a configured \<open>onBreakpoint\<close> handler in which
  a node's step returns a state with the pause marker set and truthy and the progress
  callback, when one is configured, returns normally for that node: the handler is called
  once, while the runner's status is \<open>paused\<close>, with that node's id and the state the
  step returned with the marker removed; the state it returns replaces the state for the
  rest of the run (edge resolution and the next iteration use it); and cancellation is
  checked again after the handler returns: if the signal is aborted by then, the run stops
  with status \<open>cancelled\<close> and the handler's state as \<open>finalState\<close>.
\<close>

theorem breakpoint_pauses_and_resumes:
  assumes start: "iteration_start r s c w k = Some (r1, Some n, st, it, vis, w1)"
    and bound: "int k < max_iter r"
    and live: "\<not> aborted c w1"
    and node: "findNode r n = Some node"
    and step: "execute node st Running w1 = (Inr st1, w2)"
    and marker: "breakpoint_set st1"
    and progress: "progress_returns c n st1 w2 w3"
    and handler: "onBreakpoint c = Some h"
    and resume: "h n (delete_breakpoint st1) Paused w3 = (Inr st2, w4)"
  shows "delete_breakpoint st1 ''__breakpoint'' = None
         \<and> (\<forall>key. key \<noteq> ''__breakpoint'' \<longrightarrow> delete_breakpoint st1 key = st1 key)
         \<and> (aborted c w4 \<longrightarrow>
              run r s c w =
                (Inr \<lparr>status = Cancelled, finalState = st2, error = None,
                  nodesVisited = vis @ [n]\<rparr>, r\<lparr>this_status := Cancelled\<rparr>, w4))
         \<and> (\<not> aborted c w4 \<longrightarrow>
              iteration_start r s c w (Suc k) =
                Some (r\<lparr>this_status := Running\<rparr>, resolveNextNode r n st2, st2, int k + 1,
                      vis @ [n], w4))"
proof -
  note it = iteration_step_returns [OF start bound live node step]
  have run1: "this_status r1 = Running" using it(1) by simp
  have lt: "it < max_iter r" using bound it(2) by simp
  have body: "loop_body r1 c n st vis w1 =
      (if aborted c w4 then
         Return (Inr \<lparr>status = Cancelled, finalState = st2, error = None, nodesVisited = vis @ [n]\<rparr>)
           (r1\<lparr>this_status := Cancelled\<rparr>) w4
       else Continue (resolveNextNode r1 n st2) st2 (vis @ [n]) (r1\<lparr>this_status := Running\<rparr>) w4)"
    using it(3) report_progress_returns [OF run1 progress]
      breakpoint_check_handler [OF handler marker resume] by simp
  have a: "aborted c w4 \<longrightarrow>
      run r s c w =
        (Inr \<lparr>status = Cancelled, finalState = st2, error = None,
          nodesVisited = vis @ [n]\<rparr>, r\<lparr>this_status := Cancelled\<rparr>, w4)"
  proof
    assume ab: "aborted c w4"
    with body have b: "loop_body r1 c n st vis w1 =
        Return (Inr \<lparr>status = Cancelled, finalState = st2, error = None, nodesVisited = vis @ [n]\<rparr>)
          (r1\<lparr>this_status := Cancelled\<rparr>) w4" by simp
    have "run r s c w = run_loop r1 c (max_iter r) (Some n) st it vis w1"
      by (rule run_iteration_start [OF start])
    also have "\<dots> = (Inr \<lparr>status = Cancelled, finalState = st2, error = None,
          nodesVisited = vis @ [n]\<rparr>, r1\<lparr>this_status := Cancelled\<rparr>, w4)"
      by (rule run_loop_Return [OF lt b])
    finally show "run r s c w =
        (Inr \<lparr>status = Cancelled, finalState = st2, error = None,
          nodesVisited = vis @ [n]\<rparr>, r\<lparr>this_status := Cancelled\<rparr>, w4)"
      using it(1) by simp
  qed
  have b: "\<not> aborted c w4 \<longrightarrow>
      iteration_start r s c w (Suc k) =
        Some (r\<lparr>this_status := Running\<rparr>, resolveNextNode r n st2, st2, int k + 1,
              vis @ [n], w4)"
  proof
    assume ab: "\<not> aborted c w4"
    with body have b: "loop_body r1 c n st vis w1 =
        Continue (resolveNextNode r1 n st2) st2 (vis @ [n]) (r1\<lparr>this_status := Running\<rparr>) w4"
      by simp
    from iteration_start_next [OF start lt b] it(1,2)
    show "iteration_start r s c w (Suc k) =
        Some (r\<lparr>this_status := Running\<rparr>, resolveNextNode r n st2, st2, int k + 1,
              vis @ [n], w4)"
      by (simp add: resolveNextNode_status)
  qed
  have d: "delete_breakpoint st1 ''__breakpoint'' = None
      \<and> (\<forall>key. key \<noteq> ''__breakpoint'' \<longrightarrow> delete_breakpoint st1 key = st1 key)"
    by (simp add: delete_breakpoint_def)
  from a b d show ?thesis by blast
qed

theorem breakpoint_pauses_and_resumes_witness:
  "iteration_start ex_paused Map.empty ex_reviewed [] (Suc 0) =
     Some (ex_paused\<lparr>this_status := Running\<rparr>, Some ''B'', [''approved'' \<mapsto> JBool True], 1,
           [''A''], [''run A'', ''paused at A''])
   \<and> run ex_paused Map.empty ex_review_abort [] =
       (Inr \<lparr>status = Cancelled, finalState = [''approved'' \<mapsto> JBool True], error = None,
         nodesVisited = [''A'']\<rparr>, ex_paused\<lparr>this_status := Cancelled\<rparr>, [''run A'', ''abort''])"
proof -
  let ?st1 = "[''__breakpoint'' \<mapsto> JBool True] :: WorkflowState"
  let ?h = "\<lambda>(n::WorkflowNodeId) (st::WorkflowState) (s::WorkflowStatus) (w::ex_world).
               (fst (ex_review n st s w), w @ [''abort''])"
  have start: "iteration_start ex_paused Map.empty ex_reviewed [] 0 =
      Some (ex_paused\<lparr>this_status := Running\<rparr>, Some ''A'', Map.empty, 0, [], [])"
    by (simp add: iteration_start_def ex_paused_def ex_simps)
  have start': "iteration_start ex_paused Map.empty ex_review_abort [] 0 =
      Some (ex_paused\<lparr>this_status := Running\<rparr>, Some ''A'', Map.empty, 0, [], [])"
    by (simp add: iteration_start_def ex_paused_def ex_simps)
  have bound: "int 0 < max_iter ex_paused"
    by (simp add: ex_paused_def ex_simps body_simps)
  have live: "\<not> aborted ex_reviewed []" and live': "\<not> aborted ex_review_abort []"
    by (simp_all add: ex_simps body_simps)
  have node: "findNode ex_paused ''A'' = Some (ex_pausing ''A'')"
    by (simp add: ex_paused_def ex_simps body_simps)
  have step: "execute (ex_pausing ''A'') Map.empty Running [] = (Inr ?st1, [''run A''])"
    by (simp add: ex_simps)
  have marker: "breakpoint_set ?st1"
    by (simp add: breakpoint_set_def)
  have progress: "progress_returns ex_reviewed ''A'' ?st1 [''run A''] [''run A'']"
    and progress': "progress_returns ex_review_abort ''A'' ?st1 [''run A''] [''run A'']"
    by (simp_all add: progress_returns_def ex_simps)
  have handler: "onBreakpoint ex_reviewed = Some ex_review"
    and handler': "onBreakpoint ex_review_abort = Some ?h"
    by (simp_all add: ex_simps)
  have resume: "ex_review ''A'' (delete_breakpoint ?st1) Paused [''run A''] =
      (Inr [''approved'' \<mapsto> JBool True], [''run A'', ''paused at A''])"
    by (auto simp: ex_review_def delete_breakpoint_def)
  have resume': "?h ''A'' (delete_breakpoint ?st1) Paused [''run A''] =
      (Inr [''approved'' \<mapsto> JBool True], [''run A'', ''abort''])"
    by (auto simp: ex_review_def delete_breakpoint_def)
  have go_on: "\<not> aborted ex_reviewed [''run A'', ''paused at A'']"
    and stop: "aborted ex_review_abort [''run A'', ''abort'']"
    by (simp_all add: ex_simps body_simps)
  have next_node: "resolveNextNode ex_paused ''A'' [''approved'' \<mapsto> JBool True] = Some ''B''"
    by (simp add: ex_paused_def ex_simps body_simps)
  note t = breakpoint_pauses_and_resumes
    [OF start bound live node step marker progress handler resume]
  note t' = breakpoint_pauses_and_resumes
    [OF start' bound live' node step marker progress' handler' resume']
  from t [THEN conjunct2, THEN conjunct2, THEN conjunct2] go_on
  have "iteration_start ex_paused Map.empty ex_reviewed [] (Suc 0) =
     Some (ex_paused\<lparr>this_status := Running\<rparr>,
           resolveNextNode ex_paused ''A'' [''approved'' \<mapsto> JBool True],
           [''approved'' \<mapsto> JBool True], int 0 + 1, [] @ [''A''], [''run A'', ''paused at A''])"
    by (rule mp)
  then have 1: "iteration_start ex_paused Map.empty ex_reviewed [] (Suc 0) =
     Some (ex_paused\<lparr>this_status := Running\<rparr>, Some ''B'', [''approved'' \<mapsto> JBool True], 1,
           [''A''], [''run A'', ''paused at A''])"
    unfolding next_node by simp
  from t' [THEN conjunct2, THEN conjunct2, THEN conjunct1] stop
  have "run ex_paused Map.empty ex_review_abort [] =
       (Inr \<lparr>status = Cancelled, finalState = [''approved'' \<mapsto> JBool True], error = None,
         nodesVisited = [] @ [''A'']\<rparr>, ex_paused\<lparr>this_status := Cancelled\<rparr>,
        [''run A'', ''abort''])"
    by (rule mp)
  then have 2: "run ex_paused Map.empty ex_review_abort [] =
       (Inr \<lparr>status = Cancelled, finalState = [''approved'' \<mapsto> JBool True], error = None,
         nodesVisited = [''A'']\<rparr>, ex_paused\<lparr>this_status := Cancelled\<rparr>, [''run A'', ''abort''])"
    by simp
  from 1 2 show ?thesis by simp
qed

section \<open>Two runs with the same responses\<close>












end
